theory Spec2Isabelle
  imports Main "HOL-Library.Sublist"
begin

section \<open>Python string primitives used by the two scripts\<close>

text \<open>
  Text is a list of characters. Both scripts read \<^verbatim>\<open>server/routes.ts\<close> in text mode;
  the model takes the decoded text as a \<^typ>\<open>string\<close>, so a character is one of the
  code points 0 to 255.

  \<^verbatim>\<open>sub in s\<close>: the substring test. \<open>s\<close> contains \<open>sub\<close> when \<open>sub\<close> starts at some
  position of \<open>s\<close> (the empty string is contained in every string).
\<close>

fun str_contains :: "string \<Rightarrow> string \<Rightarrow> bool" where
  "str_contains sub [] = (sub = [])"
| "str_contains sub (c # cs) = (prefix sub (c # cs) \<or> str_contains sub cs)"

text \<open>
  \<^verbatim>\<open>s.replace(old, new)\<close>: every non-overlapping occurrence of \<open>old\<close>, found from the
  left, is replaced by \<open>new\<close>. With an empty \<open>old\<close> Python inserts \<open>new\<close> before every
  character and at the end.
\<close>

function str_replace :: "string \<Rightarrow> string \<Rightarrow> string \<Rightarrow> string" where
  "str_replace old new s =
     (if old = [] then new @ concat (map (\<lambda>c. c # new) s)
      else if prefix old s then new @ str_replace old new (drop (length old) s)
      else (case s of [] \<Rightarrow> [] | c # cs \<Rightarrow> c # str_replace old new cs))"
  by pat_completeness auto
termination
  by (relation "measure (\<lambda>(old, new, s). length s)") (auto simp: prefix_def)

declare str_replace.simps [simp del]

section \<open>fix\_routes.py\<close>

subsection \<open>The regular-expression passes\<close>

text \<open>
  \<^verbatim>\<open>\s\<close> in a Python \<^verbatim>\<open>str\<close> pattern is Unicode white space; among the code points
  0 to 255 these are 9 to 13, 28 to 32, 133 and 160.
\<close>

definition is_space :: "char \<Rightarrow> bool" where
  "is_space c =
     (let n = (of_char c :: nat)
      in (9 \<le> n \<and> n \<le> 13) \<or> (28 \<le> n \<and> n \<le> 32) \<or> n = 133 \<or> n = 160)"

text \<open>
  The three patterns of the script have one shape, \<^verbatim>\<open>(LIT\s*)+\<close>, where \<open>LIT\<close> is a
  non-empty literal (every metacharacter of it is escaped in the source).
  \<open>match_run lit s\<close> is the match of that pattern at the start of \<open>s\<close>: \<open>None\<close> when
  there is none, otherwise \<open>Some r\<close> with \<open>r\<close> the text left after the match.

  One iteration of the group reads \<open>lit\<close> and then, greedily, all white space that
  follows. The \<^verbatim>\<open>+\<close> is greedy as well: after an iteration the engine tries another one
  and, when that fails, leaves the loop where it stands. Nothing follows the group in
  the pattern, so leaving the loop always succeeds and the engine never backtracks
  into the white space read before.
\<close>

function match_run :: "string \<Rightarrow> string \<Rightarrow> string option" where
  "match_run lit s =
     (if lit \<noteq> [] \<and> prefix lit s then
        (let r = dropWhile is_space (drop (length lit) s)
         in (case match_run lit r of Some r' \<Rightarrow> Some r' | None \<Rightarrow> Some r))
      else None)"
  by pat_completeness auto
termination
proof (relation "measure (\<lambda>(lit, s). length s)")
  show "wf (measure (\<lambda>(lit, s). length s))" by simp
next
  fix lit s :: string and r
  assume a: "lit \<noteq> [] \<and> prefix lit s" and r: "r = dropWhile is_space (drop (length lit) s)"
  have "length r \<le> length (drop (length lit) s)"
    unfolding r by (rule length_dropWhile_le)
  moreover have "length (drop (length lit) s) < length s"
    using a by (auto simp: prefix_def)
  ultimately show "((lit, r), (lit, s)) \<in> measure (\<lambda>(lit, s). length s)"
    by simp
qed

declare match_run.simps [simp del]

lemma match_run_shorter: "match_run lit s = Some r \<Longrightarrow> length r < length s"
proof (induction lit s arbitrary: r rule: match_run.induct)
  case (1 lit s)
  define q where "q = dropWhile is_space (drop (length lit) s)"
  from "1.prems" have a: "lit \<noteq> [] \<and> prefix lit s"
    by (subst (asm) match_run.simps) (auto split: if_splits)
  have "length q \<le> length (drop (length lit) s)"
    unfolding q_def by (rule length_dropWhile_le)
  moreover have "length (drop (length lit) s) < length s"
    using a by (auto simp: prefix_def)
  ultimately have q: "length q < length s" by simp
  show ?case
  proof (cases "match_run lit q")
    case None
    with "1.prems" a have "r = q"
      by (subst (asm) match_run.simps) (simp add: q_def Let_def)
    with q show ?thesis by simp
  next
    case (Some r')
    with "1.prems" a have "r = r'"
      by (subst (asm) match_run.simps) (simp add: q_def Let_def)
    moreover from "1.IH" [OF a q_def Some] have "length r' < length q" .
    ultimately show ?thesis using q by simp
  qed
qed

text \<open>
  \<^verbatim>\<open>re.sub(pattern, repl, s)\<close> for such a pattern: the text is scanned from the left;
  where the pattern matches, the match is replaced by \<open>repl\<close> and the scan goes on
  after the match, elsewhere the character is copied. A match is never empty, and
  the replacement strings of the script hold no backslash, so they stand for
  themselves.
\<close>

function re_sub_runs :: "string \<Rightarrow> string \<Rightarrow> string \<Rightarrow> string" where
  "re_sub_runs lit repl s =
     (case match_run lit s of
        Some r \<Rightarrow> repl @ re_sub_runs lit repl r
      | None \<Rightarrow> (case s of [] \<Rightarrow> [] | c # cs \<Rightarrow> c # re_sub_runs lit repl cs))"
  by pat_completeness auto
termination
  by (relation "measure (\<lambda>(lit, repl, s). length s)") (auto dest: match_run_shorter)

declare re_sub_runs.simps [simp del]

text \<open>Step 1: duplicate \<^verbatim>\<open>ownerName\<close> in the select.\<close>

definition clean_select :: "string \<Rightarrow> string" where
  "clean_select content =
     re_sub_runs ''ownerName: users.username,''
       ''ownerName: users.username,\<newline>        '' content"

text \<open>Step 2: duplicate left joins.\<close>

definition clean_left_joins :: "string \<Rightarrow> string" where
  "clean_left_joins content =
     re_sub_runs ''.leftJoin(users, eq(leadOperational.ownerUserId, users.id))''
       ''.leftJoin(users, eq(leadOperational.ownerUserId, users.id))\<newline>      '' content"

text \<open>Step 3: duplicate \<^verbatim>\<open>ownerName\<close> in the enriched leads.\<close>

definition clean_enriched_leads :: "string \<Rightarrow> string" where
  "clean_enriched_leads content =
     re_sub_runs ''ownerName: lead.ownerName,''
       ''ownerName: lead.ownerName,\<newline>        '' content"

subsection \<open>The literal rewrite\<close>

text \<open>Step 4: the list response loses \<^verbatim>\<open>...lead\<close> and \<^verbatim>\<open>ownerName\<close>.\<close>

definition LIST_RESPONSE :: string where
  "LIST_RESPONSE = ''res.json({\<newline>        ...lead,\<newline>        ownerName,''"

definition fix_list_response :: "string \<Rightarrow> string" where
  "fix_list_response content = str_replace LIST_RESPONSE ''res.json({'' content"

text \<open>
  The whole transformation of the script. Step 5 only tests whether the text holds
  the single-lead route and does nothing in either case.
\<close>

definition fix_routes :: "string \<Rightarrow> string" where
  "fix_routes content =
     fix_list_response (clean_enriched_leads (clean_left_joins (clean_select content)))"

section \<open>update\_routes.py\<close>

subsection \<open>The patterns and the synthesized lines\<close>

definition HEADER :: string where
  "HEADER = ''const { batchId, minScore, status, state, onlyContactable, excludeDnc, search } = req.query;''"

definition ANCHOR :: string where
  "ANCHOR = ''if (status) {''"

definition CONFIRM :: string where
  "CONFIRM = ''conditions.push(eq(leadOperational.status, status as any));''"

definition TERMINATOR :: string where
  "TERMINATOR = ''if (excludeDnc === 'true') {''"

definition FIELD :: string where
  "FIELD = ''ownerUserId: leadOperational.ownerUserId,''"

definition JOIN :: string where
  "JOIN = ''.innerJoin(canonicalPersons, and(eq(leadOperational.personId, canonicalPersons.id), eq(canonicalPersons.companyId, companyId)))''"

text \<open>The four lines appended after the status block: a blank line and the zip filter.\<close>

definition ZIP_FILTER :: "string list" where
  "ZIP_FILTER =
     [''\<newline>'',
      ''      if (zip) {\<newline>'',
      ''        conditions.push(ilike(canonicalPersons.zip, `${zip}%`));\<newline>'',
      ''      }\<newline>'']"

definition OWNER_NAME_FIELD :: string where
  "OWNER_NAME_FIELD = ''        ownerName: users.username,\<newline>''"

definition USERS_JOIN :: string where
  "USERS_JOIN = ''      .leftJoin(users, eq(leadOperational.ownerUserId, users.id))\<newline>''"

subsection \<open>The scan loop\<close>

text \<open>
  The only exception the loop can raise is the \<^verbatim>\<open>IndexError\<close> of a lookahead past the
  last line; \<open>OSError\<close> is the failure of \<^verbatim>\<open>open\<close>, \<^verbatim>\<open>read\<close> or \<^verbatim>\<open>write\<close>.
\<close>

datatype error = IndexError | OSError

text \<open>The variables the loop updates: the output \<^verbatim>\<open>new_lines\<close> and the flag \<^verbatim>\<open>skip\<close>.\<close>

record scan_state =
  new_lines :: "string list"
  skip :: bool

text \<open>
  The step commented \<^verbatim>\<open>Update query params extraction\<close>: the first \<^verbatim>\<open>if\<close> of the loop body assigns the
  rewritten line to \<^verbatim>\<open>line\<close> and does not leave the iteration; every later test of the
  body reads the rewritten line.
\<close>

definition update_query_params :: "string \<Rightarrow> string" where
  "update_query_params line =
     (if str_contains HEADER line
      then str_replace ''state, onlyContactable'' ''state, zip, onlyContactable'' line
      else line)"

text \<open>
  The steps commented \<^verbatim>\<open>Update SELECT\<close> and \<^verbatim>\<open>Update JOIN\<close>, and the final \<^verbatim>\<open>new_lines.append(line)\<close>: the
  part of the body below the \<^verbatim>\<open>skip\<close> test.
\<close>

definition emit_line :: "string \<Rightarrow> scan_state \<Rightarrow> scan_state" where
  "emit_line line st =
     (if str_contains FIELD line then st\<lparr>new_lines := new_lines st @ [line, OWNER_NAME_FIELD]\<rparr>
      else if str_contains JOIN line then st\<lparr>new_lines := new_lines st @ [line, USERS_JOIN]\<rparr>
      else st\<lparr>new_lines := new_lines st @ [line]\<rparr>)"

text \<open>
  The \<^verbatim>\<open>if skip:\<close> test: a line with the terminator clears the flag and is processed
  further, any other line is dropped while the flag is set.
\<close>

definition skip_or_emit :: "string \<Rightarrow> scan_state \<Rightarrow> scan_state" where
  "skip_or_emit line st =
     (if skip st then
        (if str_contains TERMINATOR line then emit_line line (st\<lparr>skip := False\<rparr>) else st)
      else emit_line line st)"

text \<open>
  One iteration of \<^verbatim>\<open>for i, line in enumerate(lines)\<close>, with \<open>i < length lines\<close>.
  \<^verbatim>\<open>lines[i+1]\<close> is evaluated only when the anchor is in the line (\<^verbatim>\<open>and\<close> is
  short-circuit), \<^verbatim>\<open>lines[i+2]\<close> only when the confirming pattern is in the next line;
  each raises \<^verbatim>\<open>IndexError\<close> past the end of the list. The loop index is not advanced
  after the insertion: the next two iterations see \<^verbatim>\<open>lines[i+1]\<close> and \<^verbatim>\<open>lines[i+2]\<close>
  again, with \<^verbatim>\<open>skip\<close> set.
\<close>

definition scan_body :: "string list \<Rightarrow> nat \<Rightarrow> scan_state \<Rightarrow> error + scan_state" where
  "scan_body lines i st =
     (let line = update_query_params (lines ! i) in
      if str_contains ANCHOR line then
        (if i + 1 < length lines then
           (if str_contains CONFIRM (lines ! (i + 1)) then
              (if i + 2 < length lines then
                 Inr \<lparr>new_lines = new_lines st @ [line, lines ! (i + 1), lines ! (i + 2)] @ ZIP_FILTER,
                      skip = True\<rparr>
               else Inl IndexError)
            else Inr (skip_or_emit line st))
         else Inl IndexError)
      else Inr (skip_or_emit line st))"

text \<open>The loop over the indices; an exception ends it.\<close>

fun scan_loop :: "string list \<Rightarrow> nat list \<Rightarrow> scan_state \<Rightarrow> error + scan_state" where
  "scan_loop lines [] st = Inr st"
| "scan_loop lines (i # is) st =
     (case scan_body lines i st of Inl e \<Rightarrow> Inl e | Inr st' \<Rightarrow> scan_loop lines is st')"

definition init_state :: scan_state where
  "init_state = \<lparr>new_lines = [], skip = False\<rparr>"

text \<open>The scan of the whole file: \<^verbatim>\<open>new_lines\<close> after the loop, or the exception.\<close>

definition scan :: "string list \<Rightarrow> error + string list" where
  "scan lines =
     (case scan_loop lines [0..<length lines] init_state of
        Inl e \<Rightarrow> Inl e
      | Inr st \<Rightarrow> Inr (new_lines st))"

section \<open>The scripts on the file\<close>

text \<open>
  Each script reads \<^verbatim>\<open>server/routes.ts\<close>, transforms the text in memory, opens the same
  file with mode \<^verbatim>\<open>'w'\<close> and writes the result. The content of that file is the only
  state outside the script. \<^verbatim>\<open>readlines\<close> cuts the text after every newline (the text
  as the text layer hands it over); \<^verbatim>\<open>writelines\<close> writes the lines one after the other.
\<close>

fun split_lines :: "string \<Rightarrow> string \<Rightarrow> string list" where
  "split_lines cur [] = (if cur = [] then [] else [cur])"
| "split_lines cur (c # cs) =
     (if c = CHR ''\<newline>'' then (cur @ [c]) # split_lines [] cs
      else split_lines (cur @ [c]) cs)"

definition readlines :: "string \<Rightarrow> string list" where
  "readlines content = split_lines [] content"

text \<open>
  What the file system may do to one run: nothing, fail the read, refuse to open the
  file for writing, or fail the write after \<open>k\<close> characters have reached the file.
\<close>

datatype io_fault = NoFault | ReadFails | OpenForWriteFails | WriteFails nat

text \<open>\<^verbatim>\<open>open(file_path, 'r')\<close> and \<^verbatim>\<open>f.read()\<close>: the text of the file, or the exception.\<close>

definition open_read :: "io_fault \<Rightarrow> string \<Rightarrow> error + string" where
  "open_read fault file = (if fault = ReadFails then Inl OSError else Inr file)"

text \<open>
  \<^verbatim>\<open>open(file_path, 'w')\<close> truncates the file when it opens it: the result is the new
  content of the file, empty, or the exception with the file untouched.
\<close>

definition open_write :: "io_fault \<Rightarrow> string \<Rightarrow> error + string" where
  "open_write fault file = (if fault = OpenForWriteFails then Inl OSError else Inr [])"

text \<open>\<^verbatim>\<open>f.write(text)\<close> on the open file, which holds \<open>file\<close> so far.\<close>

definition write_text :: "io_fault \<Rightarrow> string \<Rightarrow> string \<Rightarrow> (error + unit) \<times> string" where
  "write_text fault text file =
     (case fault of
        WriteFails k \<Rightarrow> (Inl OSError, file @ take k text)
      | _ \<Rightarrow> (Inr (), file @ text))"

text \<open>A run returns how the script ended and the content of the file afterwards.\<close>

definition run_fix_routes :: "io_fault \<Rightarrow> string \<Rightarrow> (error + unit) \<times> string" where
  "run_fix_routes fault file =
     (case open_read fault file of
        Inl e \<Rightarrow> (Inl e, file)
      | Inr content \<Rightarrow>
          (let content' = fix_routes content in
           case open_write fault file of
             Inl e \<Rightarrow> (Inl e, file)
           | Inr file' \<Rightarrow> write_text fault content' file'))"

definition run_update_routes :: "io_fault \<Rightarrow> string \<Rightarrow> (error + unit) \<times> string" where
  "run_update_routes fault file =
     (case open_read fault file of
        Inl e \<Rightarrow> (Inl e, file)
      | Inr content \<Rightarrow>
          (case scan (readlines content) of
             Inl e \<Rightarrow> (Inl e, file)
           | Inr out \<Rightarrow>
               (case open_write fault file of
                  Inl e \<Rightarrow> (Inl e, file)
                | Inr file' \<Rightarrow> write_text fault (concat out) file')))"

section \<open>Patterns that cannot meet\<close>

text \<open>
  \<open>no_start p t\<close>: at no position of \<open>t\<close> does the rest of \<open>t\<close> begin with \<open>p\<close>, and at
  none is the rest of \<open>t\<close> the beginning of \<open>p\<close>. Then an occurrence of \<open>p\<close> in a text
  cannot begin inside an occurrence of \<open>t\<close>, whatever follows. The test is used below
  to show that the rewrite of the query parameters neither destroys nor creates an
  occurrence of another pattern.
\<close>

fun no_start :: "string \<Rightarrow> string \<Rightarrow> bool" where
  "no_start p [] = True"
| "no_start p (c # cs) = (\<not> prefix p (c # cs) \<and> \<not> prefix (c # cs) p \<and> no_start p cs)"

section \<open>Properties of the string primitives\<close>

lemma str_replace_Nil [simp]: "old \<noteq> [] \<Longrightarrow> str_replace old new [] = []"
  by (subst str_replace.simps) simp

lemma str_replace_match:
  "old \<noteq> [] \<Longrightarrow> prefix old s \<Longrightarrow>
   str_replace old new s = new @ str_replace old new (drop (length old) s)"
  by (subst str_replace.simps) simp

lemma str_replace_copy:
  "old \<noteq> [] \<Longrightarrow> \<not> prefix old (c # cs) \<Longrightarrow>
   str_replace old new (c # cs) = c # str_replace old new cs"
  by (subst str_replace.simps) simp

lemma str_contains_sublist: "str_contains sub s = sublist sub s"
  by (induction s) (auto simp: sublist_Cons_right)

lemma str_replace_absent:
  "old \<noteq> [] \<Longrightarrow> \<not> str_contains old s \<Longrightarrow> str_replace old new s = s"
  by (induction s) (auto simp: str_replace_copy)

lemma str_contains_prefix: "prefix p s \<Longrightarrow> str_contains p s"
  by (cases s) simp_all

lemma str_contains_append: "str_contains p r \<Longrightarrow> str_contains p (t @ r)"
  by (induction t) simp_all

lemma no_start_inside: "no_start p t \<Longrightarrow> str_contains p (t @ r) \<Longrightarrow> str_contains p r"
proof (induction t)
  case Nil
  then show ?case by simp
next
  case (Cons c cs)
  from Cons.prems(1) have a: "\<not> prefix p (c # cs)" "\<not> prefix (c # cs) p" "no_start p cs"
    by simp_all
  have "\<not> prefix p ((c # cs) @ r)"
  proof
    assume "prefix p ((c # cs) @ r)"
    moreover have "prefix (c # cs) ((c # cs) @ r)" by simp
    ultimately have "prefix p (c # cs) \<or> prefix (c # cs) p"
      by (rule prefix_same_cases)
    with a show False by simp
  qed
  with Cons.prems(2) have "str_contains p (cs @ r)" by simp
  with Cons.IH a show ?case by simp
qed

lemma str_replace_through:
  "T \<noteq> [] \<Longrightarrow> no_start T p \<Longrightarrow> str_replace T T' (p @ r) = p @ str_replace T T' r"
proof (induction p)
  case Nil
  then show ?case by simp
next
  case (Cons c cs)
  from Cons.prems(2) have a: "\<not> prefix T (c # cs)" "\<not> prefix (c # cs) T" "no_start T cs"
    by simp_all
  have "\<not> prefix T (c # (cs @ r))"
  proof
    assume "prefix T (c # (cs @ r))"
    moreover have "prefix (c # cs) (c # (cs @ r))" by simp
    ultimately have "prefix T (c # cs) \<or> prefix (c # cs) T"
      by (rule prefix_same_cases)
    with a show False by simp
  qed
  then have "str_replace T T' (c # (cs @ r)) = c # str_replace T T' (cs @ r)"
    by (rule str_replace_copy [OF Cons.prems(1)])
  with Cons.IH [OF Cons.prems(1) a(3)] show ?case by simp
qed

text \<open>An occurrence of \<open>p\<close> survives the replacement of \<open>T\<close> when the two cannot meet.\<close>

lemma str_replace_keeps:
  assumes "T \<noteq> []" "no_start p T" "no_start T p"
  shows "str_contains p s \<Longrightarrow> str_contains p (str_replace T T' s)"
proof (induction s rule: length_induct)
  case (1 s)
  show ?case
  proof (cases "prefix T s")
    case True
    then obtain r where s: "s = T @ r" by (auto simp: prefix_def)
    with "1.prems" assms(2) have "str_contains p r" by (auto dest: no_start_inside)
    moreover have "length r < length s" using s assms(1) by simp
    ultimately have "str_contains p (str_replace T T' r)" using "1.IH" by blast
    then show ?thesis
      using True s assms(1) by (simp add: str_replace_match str_contains_append)
  next
    case False
    show ?thesis
    proof (cases s)
      case Nil
      with "1.prems" assms(1) show ?thesis by simp
    next
      case (Cons c cs)
      show ?thesis
      proof (cases "prefix p s")
        case True
        then obtain r where "s = p @ r" by (auto simp: prefix_def)
        then show ?thesis
          using assms by (simp add: str_replace_through str_contains_prefix)
      next
        case np: False
        with "1.prems" Cons have "str_contains p cs" by simp
        with "1.IH" Cons have "str_contains p (str_replace T T' cs)" by simp
        then show ?thesis
          using False Cons assms(1) by (simp add: str_replace_copy)
      qed
    qed
  qed
qed

lemma prefix_str_replace:
  "T \<noteq> [] \<Longrightarrow> no_start T' p \<Longrightarrow> prefix p (str_replace T T' s) \<Longrightarrow> prefix p s"
proof (induction p arbitrary: s)
  case Nil
  then show ?case by simp
next
  case (Cons c cs)
  from Cons.prems(2) have a: "\<not> prefix T' (c # cs)" "\<not> prefix (c # cs) T'" "no_start T' cs"
    by simp_all
  show ?case
  proof (cases "prefix T s")
    case True
    with Cons.prems(1) have "str_replace T T' s = T' @ str_replace T T' (drop (length T) s)"
      by (simp add: str_replace_match)
    with Cons.prems(3) have "prefix (c # cs) (T' @ str_replace T T' (drop (length T) s))"
      by simp
    moreover have "prefix T' (T' @ str_replace T T' (drop (length T) s))" by simp
    ultimately have "prefix (c # cs) T' \<or> prefix T' (c # cs)"
      by (rule prefix_same_cases)
    with a show ?thesis by simp
  next
    case False
    show ?thesis
    proof (cases s)
      case Nil
      with Cons.prems show ?thesis by simp
    next
      case (Cons d ds)
      with False Cons.prems(1) have "str_replace T T' s = d # str_replace T T' ds"
        by (simp add: str_replace_copy)
      with Cons.prems(3) have "c = d" "prefix cs (str_replace T T' ds)" by simp_all
      with Cons.IH [OF Cons.prems(1) a(3)] Cons show ?thesis by simp
    qed
  qed
qed

text \<open>The replacement creates no occurrence of \<open>p\<close> when \<open>p\<close> and the new text cannot meet.\<close>

lemma str_replace_adds_none:
  assumes "T \<noteq> []" "no_start p T'" "no_start T' p"
  shows "str_contains p (str_replace T T' s) \<Longrightarrow> str_contains p s"
proof (induction s rule: length_induct)
  case (1 s)
  show ?case
  proof (cases "prefix T s")
    case True
    then obtain r where s: "s = T @ r" by (auto simp: prefix_def)
    with "1.prems" assms(1) have "str_contains p (T' @ str_replace T T' r)"
      by (simp add: str_replace_match)
    with assms(2) have "str_contains p (str_replace T T' r)" by (rule no_start_inside)
    moreover have "length r < length s" using s assms(1) by simp
    ultimately have "str_contains p r" using "1.IH" by blast
    then show ?thesis unfolding s by (rule str_contains_append)
  next
    case False
    show ?thesis
    proof (cases s)
      case Nil
      with "1.prems" assms(1) show ?thesis by simp
    next
      case (Cons c cs)
      with False assms(1) have r: "str_replace T T' s = c # str_replace T T' cs"
        by (simp add: str_replace_copy)
      show ?thesis
      proof (cases "prefix p (str_replace T T' s)")
        case True
        with assms have "prefix p s" by (auto dest: prefix_str_replace)
        then show ?thesis by (rule str_contains_prefix)
      next
        case np: False
        with "1.prems" r have "str_contains p (str_replace T T' cs)" by simp
        with "1.IH" Cons have "str_contains p cs" by simp
        then show ?thesis using Cons by simp
      qed
    qed
  qed
qed

section \<open>Properties of the regular-expression passes\<close>

lemma match_run_None_iff: "match_run lit s = None \<longleftrightarrow> \<not> (lit \<noteq> [] \<and> prefix lit s)"
  by (subst match_run.simps) (auto simp: Let_def split: option.splits)

lemma match_run_rest:
  "match_run lit s = Some r \<Longrightarrow> (r = [] \<or> \<not> is_space (hd r)) \<and> \<not> prefix lit r"
proof (induction lit s arbitrary: r rule: match_run.induct)
  case (1 lit s)
  define q where "q = dropWhile is_space (drop (length lit) s)"
  from "1.prems" have a: "lit \<noteq> [] \<and> prefix lit s"
    by (subst (asm) match_run.simps) (auto split: if_splits)
  show ?case
  proof (cases "match_run lit q")
    case None
    with "1.prems" a have r: "r = q"
      by (subst (asm) match_run.simps) (simp add: q_def Let_def)
    have "q = [] \<or> \<not> is_space (hd q)"
      unfolding q_def by (cases "dropWhile is_space (drop (length lit) s) = []") (simp_all add: hd_dropWhile)
    moreover from None a have "\<not> prefix lit q"
      by (simp add: match_run_None_iff)
    ultimately show ?thesis using r by simp
  next
    case (Some r')
    with "1.prems" a have "r = r'"
      by (subst (asm) match_run.simps) (simp add: q_def Let_def)
    with "1.IH" [OF a q_def Some] show ?thesis by simp
  qed
qed

lemma re_sub_runs_match:
  "match_run lit s = Some r \<Longrightarrow> re_sub_runs lit repl s = repl @ re_sub_runs lit repl r"
  by (subst re_sub_runs.simps) simp

lemma match_run_Nil [simp]: "match_run lit [] = None"
  by (simp add: match_run_None_iff)

lemma re_sub_runs_Nil [simp]: "re_sub_runs lit repl [] = []"
  by (subst re_sub_runs.simps) simp

lemma re_sub_runs_copy:
  "match_run lit (c # cs) = None \<Longrightarrow>
   re_sub_runs lit repl (c # cs) = c # re_sub_runs lit repl cs"
  by (subst re_sub_runs.simps) simp

lemma take_re_sub_runs:
  "take (length lit) (re_sub_runs lit (lit @ ws) s) = take (length lit) s"
proof (induction lit "lit @ ws" s rule: re_sub_runs.induct)
  case (1 lit s)
  show ?case
  proof (cases "match_run lit s")
    case (Some r)
    then have "prefix lit s" using match_run_None_iff [of lit s] by auto
    then have "take (length lit) s = lit" by (auto simp: prefix_def)
    then show ?thesis by (simp add: re_sub_runs_match [OF Some])
  next
    case None
    show ?thesis
    proof (cases s)
      case Nil
      then show ?thesis by simp
    next
      case (Cons c cs)
      from "1.hyps"(1) [OF None Cons]
      have ih: "take (length lit) (re_sub_runs lit (lit @ ws) cs) = take (length lit) cs" .
      have "take (length lit - 1) (re_sub_runs lit (lit @ ws) cs)
            = take (length lit - 1) (take (length lit) (re_sub_runs lit (lit @ ws) cs))"
        by (simp add: min_def)
      also have "\<dots> = take (length lit - 1) cs"
        by (simp add: ih min_def)
      finally show ?thesis using None Cons
        by (cases "length lit") (simp_all add: re_sub_runs_copy)
    qed
  qed
qed

lemma prefix_take_eq: "prefix p s \<longleftrightarrow> take (length p) s = p"
  by (metis append_eq_conv_conj prefix_def take_is_prefix)

lemma prefix_re_sub_runs:
  "prefix lit (re_sub_runs lit (lit @ ws) s) \<longleftrightarrow> prefix lit s"
  by (simp add: prefix_take_eq take_re_sub_runs)

lemma head_re_sub_runs:
  assumes "lit \<noteq> []" "s = [] \<or> \<not> is_space (hd s)"
  shows "dropWhile is_space (re_sub_runs lit (lit @ ws) s) = re_sub_runs lit (lit @ ws) s"
proof -
  have "take 1 (take (length lit) (re_sub_runs lit (lit @ ws) s)) = take 1 (take (length lit) s)"
    by (simp only: take_re_sub_runs)
  moreover have "min 1 (length lit) = 1" using assms(1) by (cases lit) simp_all
  ultimately have t: "take 1 (re_sub_runs lit (lit @ ws) s) = take 1 s"
    by (simp add: min.commute)
  show ?thesis
  proof (cases s)
    case Nil
    then show ?thesis by simp
  next
    case (Cons c cs)
    with t obtain ds where "re_sub_runs lit (lit @ ws) s = c # ds"
      by (cases "re_sub_runs lit (lit @ ws) s") simp_all
    with Cons assms(2) show ?thesis by simp
  qed
qed

lemma match_run_replacement:
  assumes "lit \<noteq> []" "\<forall>c\<in>set ws. is_space c" "match_run lit s = Some r"
  shows "match_run lit ((lit @ ws) @ re_sub_runs lit (lit @ ws) r)
         = Some (re_sub_runs lit (lit @ ws) r)"
proof -
  let ?X = "re_sub_runs lit (lit @ ws) r"
  from match_run_rest [OF assms(3)]
  have r: "r = [] \<or> \<not> is_space (hd r)" and np: "\<not> prefix lit r" by simp_all
  have "dropWhile is_space (ws @ ?X) = dropWhile is_space ?X"
    using assms(2) by (simp add: dropWhile_append)
  also have "\<dots> = ?X" by (rule head_re_sub_runs [OF assms(1) r])
  finally have d: "dropWhile is_space (ws @ ?X) = ?X" .
  have n: "match_run lit ?X = None"
    using np by (simp add: match_run_None_iff prefix_re_sub_runs)
  show ?thesis
    by (subst match_run.simps) (simp add: assms(1) d n)
qed

lemma re_sub_runs_idem:
  assumes "lit \<noteq> []" "\<forall>c\<in>set ws. is_space c"
  shows "re_sub_runs lit (lit @ ws) (re_sub_runs lit (lit @ ws) s) = re_sub_runs lit (lit @ ws) s"
  using assms
proof (induction lit "lit @ ws" s rule: re_sub_runs.induct)
  case (1 lit' s)
  show ?case
  proof (cases "match_run lit' s")
    case (Some r)
    from "1.hyps"(2) [OF Some] "1.prems"
    have ih: "re_sub_runs lit' (lit' @ ws) (re_sub_runs lit' (lit' @ ws) r)
              = re_sub_runs lit' (lit' @ ws) r" by simp
    have "re_sub_runs lit' (lit' @ ws) ((lit' @ ws) @ re_sub_runs lit' (lit' @ ws) r)
          = (lit' @ ws) @ re_sub_runs lit' (lit' @ ws) (re_sub_runs lit' (lit' @ ws) r)"
      by (rule re_sub_runs_match) (rule match_run_replacement [OF "1.prems" Some])
    then show ?thesis
      by (simp add: re_sub_runs_match [OF Some] ih)
  next
    case None
    show ?thesis
    proof (cases s)
      case Nil
      then show ?thesis by simp
    next
      case (Cons c cs)
      from "1.hyps"(1) [OF None Cons] "1.prems"
      have ih: "re_sub_runs lit' (lit' @ ws) (re_sub_runs lit' (lit' @ ws) cs)
                = re_sub_runs lit' (lit' @ ws) cs" by simp
      from None have "\<not> (lit' \<noteq> [] \<and> prefix lit' s)"
        by (simp add: match_run_None_iff)
      then have "\<not> (lit' \<noteq> [] \<and> prefix lit' (re_sub_runs lit' (lit' @ ws) s))"
        by (simp add: prefix_re_sub_runs)
      then have "match_run lit' (c # re_sub_runs lit' (lit' @ ws) cs) = None"
        using None Cons by (simp add: match_run_None_iff re_sub_runs_copy)
      then show ?thesis
        using None Cons by (simp add: re_sub_runs_copy ih)
    qed
  qed
qed




section \<open>Properties of the scan loop\<close>

text \<open>
  The rewrite of the query parameters changes no test of the loop body: the anchor,
  the terminator, the field and the join pattern are in the rewritten line exactly
  when they are in the line read.
\<close>

lemma apart_ANCHOR:
  "no_start ANCHOR ''state, onlyContactable''"
  "no_start ''state, onlyContactable'' ANCHOR"
  "no_start ANCHOR ''state, zip, onlyContactable''"
  "no_start ''state, zip, onlyContactable'' ANCHOR"
  by (simp_all add: ANCHOR_def)

lemma apart_TERMINATOR:
  "no_start TERMINATOR ''state, onlyContactable''"
  "no_start ''state, onlyContactable'' TERMINATOR"
  "no_start TERMINATOR ''state, zip, onlyContactable''"
  "no_start ''state, zip, onlyContactable'' TERMINATOR"
  by (simp_all add: TERMINATOR_def)

lemma apart_FIELD:
  "no_start FIELD ''state, onlyContactable''"
  "no_start ''state, onlyContactable'' FIELD"
  "no_start FIELD ''state, zip, onlyContactable''"
  "no_start ''state, zip, onlyContactable'' FIELD"
  by (simp_all add: FIELD_def)

lemma apart_JOIN:
  "no_start JOIN ''state, onlyContactable''"
  "no_start ''state, onlyContactable'' JOIN"
  "no_start JOIN ''state, zip, onlyContactable''"
  "no_start ''state, zip, onlyContactable'' JOIN"
  by (simp_all add: JOIN_def)

lemma update_query_params_ANCHOR:
  "str_contains ANCHOR (update_query_params l) = str_contains ANCHOR l"
  unfolding update_query_params_def
  using str_replace_keeps [of "''state, onlyContactable''" ANCHOR l "''state, zip, onlyContactable''"]
    str_replace_adds_none [of "''state, onlyContactable''" ANCHOR "''state, zip, onlyContactable''" l]
    apart_ANCHOR
  by auto

lemma update_query_params_TERMINATOR:
  "str_contains TERMINATOR (update_query_params l) = str_contains TERMINATOR l"
  unfolding update_query_params_def
  using str_replace_keeps [of "''state, onlyContactable''" TERMINATOR l "''state, zip, onlyContactable''"]
    str_replace_adds_none [of "''state, onlyContactable''" TERMINATOR "''state, zip, onlyContactable''" l]
    apart_TERMINATOR
  by auto

lemma update_query_params_FIELD:
  "str_contains FIELD (update_query_params l) = str_contains FIELD l"
  unfolding update_query_params_def
  using str_replace_keeps [of "''state, onlyContactable''" FIELD l "''state, zip, onlyContactable''"]
    str_replace_adds_none [of "''state, onlyContactable''" FIELD "''state, zip, onlyContactable''" l]
    apart_FIELD
  by auto

lemma update_query_params_JOIN:
  "str_contains JOIN (update_query_params l) = str_contains JOIN l"
  unfolding update_query_params_def
  using str_replace_keeps [of "''state, onlyContactable''" JOIN l "''state, zip, onlyContactable''"]
    str_replace_adds_none [of "''state, onlyContactable''" JOIN "''state, zip, onlyContactable''" l]
    apart_JOIN
  by auto

lemmas update_query_params_tests =
  update_query_params_ANCHOR update_query_params_TERMINATOR
  update_query_params_FIELD update_query_params_JOIN

lemma update_query_params_plain:
  "\<not> str_contains HEADER l \<Longrightarrow> update_query_params l = l"
  by (simp add: update_query_params_def)

text \<open>The loop, split at an index; its only exception.\<close>

lemma scan_loop_append:
  "scan_loop lines (xs @ ys) st =
     (case scan_loop lines xs st of Inl e \<Rightarrow> Inl e | Inr st' \<Rightarrow> scan_loop lines ys st')"
  by (induction xs arbitrary: st) (simp_all split: sum.splits)

lemma scan_loop_Suc:
  "scan_loop lines [0..<Suc k] st =
     (case scan_loop lines [0..<k] st of Inl e \<Rightarrow> Inl e | Inr st' \<Rightarrow> scan_body lines k st')"
  by (simp add: scan_loop_append split: sum.splits)

lemma scan_body_error: "scan_body lines i st = Inl e \<Longrightarrow> e = IndexError"
  by (auto simp: scan_body_def Let_def split: if_splits)

lemma scan_loop_error: "scan_loop lines is st = Inl e \<Longrightarrow> e = IndexError"
  by (induction "is" arbitrary: st) (auto split: sum.splits dest: scan_body_error)

lemma scan_loop_fails_at:
  "\<forall>st. scan_body lines k st = Inl IndexError \<Longrightarrow> k \<in> set is \<Longrightarrow>
   scan_loop lines is st = Inl IndexError"
proof (induction "is" arbitrary: st)
  case Nil
  then show ?case by simp
next
  case (Cons i "is")
  show ?case
  proof (cases "scan_body lines i st")
    case (Inl e)
    then show ?thesis by (simp add: scan_body_error)
  next
    case (Inr st')
    with Cons.prems have "k \<in> set is" by auto
    with Cons.IH Cons.prems(1) Inr show ?thesis by simp
  qed
qed

lemma scan_fails_at:
  "\<forall>st. scan_body lines k st = Inl IndexError \<Longrightarrow> k < length lines \<Longrightarrow>
   scan lines = Inl IndexError"
  by (simp add: scan_def scan_loop_fails_at)

text \<open>A line without any pattern, read while \<^verbatim>\<open>skip\<close> is clear, is copied.\<close>

lemma scan_body_plain:
  assumes "\<not> str_contains HEADER (lines ! i)" "\<not> str_contains ANCHOR (lines ! i)"
    "\<not> str_contains FIELD (lines ! i)" "\<not> str_contains JOIN (lines ! i)" "\<not> skip st"
  shows "scan_body lines i st = Inr (st\<lparr>new_lines := new_lines st @ [lines ! i]\<rparr>)"
  using assms
  by (simp add: scan_body_def update_query_params_plain skip_or_emit_def emit_line_def)

lemma scan_loop_plain:
  assumes "\<forall>l\<in>set lines. \<not> str_contains HEADER l \<and> \<not> str_contains ANCHOR l
             \<and> \<not> str_contains FIELD l \<and> \<not> str_contains JOIN l"
  shows "k \<le> length lines \<Longrightarrow>
         scan_loop lines [0..<k] init_state = Inr \<lparr>new_lines = take k lines, skip = False\<rparr>"
proof (induction k)
  case 0
  then show ?case by (simp add: init_state_def)
next
  case (Suc k)
  then have k: "k < length lines" by simp
  then have "lines ! k \<in> set lines" by simp
  with assms have "scan_body lines k \<lparr>new_lines = take k lines, skip = False\<rparr>
      = Inr \<lparr>new_lines = take k lines @ [lines ! k], skip = False\<rparr>"
    by (simp add: scan_body_plain)
  with Suc k show ?case
    by (simp add: scan_loop_Suc take_Suc_conv_app_nth del: upt_Suc)
qed

text \<open>The two lookaheads past the end.\<close>

lemma scan_body_anchor_last:
  "Suc i = length lines \<Longrightarrow> str_contains ANCHOR (lines ! i) \<Longrightarrow>
   scan_body lines i st = Inl IndexError"
  by (auto simp: scan_body_def Let_def update_query_params_tests)

lemma scan_body_confirm_last:
  "Suc (Suc i) = length lines \<Longrightarrow> str_contains ANCHOR (lines ! i) \<Longrightarrow>
   str_contains CONFIRM (lines ! Suc i) \<Longrightarrow> scan_body lines i st = Inl IndexError"
  by (auto simp: scan_body_def Let_def update_query_params_tests)

text \<open>
  While \<^verbatim>\<open>skip\<close> is set, a line without the terminator is dropped, unless it starts a
  block insertion or a lookahead past the end: a line with the anchor is dropped too
  when the next line exists and lacks the confirming pattern.
\<close>

lemma scan_body_dropped:
  "skip st \<Longrightarrow> \<not> str_contains TERMINATOR (lines ! i) \<Longrightarrow>
   str_contains ANCHOR (lines ! i) \<longrightarrow>
     i + 1 < length lines \<and> \<not> str_contains CONFIRM (lines ! (i + 1)) \<Longrightarrow>
   scan_body lines i st = Inr st"
  by (simp add: scan_body_def Let_def update_query_params_tests skip_or_emit_def)

lemma scan_loop_dropped:
  "skip st \<Longrightarrow>
   \<forall>j\<in>set is. \<not> str_contains TERMINATOR (lines ! j)
     \<and> (str_contains ANCHOR (lines ! j) \<longrightarrow>
          j + 1 < length lines \<and> \<not> str_contains CONFIRM (lines ! (j + 1))) \<Longrightarrow>
   scan_loop lines is st = Inr st"
  by (induction "is") (simp_all add: scan_body_dropped)

section \<open>Claims about fix\_routes.py\<close>

text \<open>
  C8. The literal rewrite of step 4 is tolerant: a text that does not contain the
  literal \<^verbatim>\<open>res.json({\n        ...lead,\n        ownerName,\<close> comes back unchanged.
  The result is a plain text in every case; there is no error value to return.
\<close>

theorem fix_list_response_tolerant:
  "\<not> str_contains LIST_RESPONSE T \<Longrightarrow> fix_list_response T = T"
  unfolding fix_list_response_def
  by (rule str_replace_absent) (simp_all add: LIST_RESPONSE_def)

theorem fix_list_response_tolerant_witness:
  "\<not> str_contains LIST_RESPONSE ''res.json({ leads });''
   \<and> fix_list_response ''res.json({ leads });'' = ''res.json({ leads });''"
proof -
  have h: "\<not> str_contains LIST_RESPONSE ''res.json({ leads });''"
    by (simp add: LIST_RESPONSE_def)
  from fix_list_response_tolerant [OF h] h show ?thesis by simp
qed

text \<open>
  C4. Each of the three collapsing passes (duplicate \<^verbatim>\<open>ownerName\<close> in the select,
  duplicate left joins, duplicate \<^verbatim>\<open>ownerName\<close> in the enriched leads) is idempotent
  on every text: applying the pass to its own result changes nothing, and so any
  number of further applications gives the result of the first.
\<close>

theorem collapse_idempotent:
  "clean_select (clean_select T) = clean_select T
   \<and> clean_left_joins (clean_left_joins T) = clean_left_joins T
   \<and> clean_enriched_leads (clean_enriched_leads T) = clean_enriched_leads T
   \<and> (clean_select ^^ Suc n) T = clean_select T
   \<and> (clean_left_joins ^^ Suc n) T = clean_left_joins T
   \<and> (clean_enriched_leads ^^ Suc n) T = clean_enriched_leads T"
proof -
  have ws8: "\<forall>c\<in>set ''\<newline>        ''. is_space c"
    and ws6: "\<forall>c\<in>set ''\<newline>      ''. is_space c"
    by (simp_all add: is_space_def)
  have 1: "clean_select (clean_select U) = clean_select U" for U
    unfolding clean_select_def
    using re_sub_runs_idem [of "''ownerName: users.username,''", OF _ ws8] by simp
  have 2: "clean_left_joins (clean_left_joins U) = clean_left_joins U" for U
    unfolding clean_left_joins_def
    using re_sub_runs_idem
      [of "''.leftJoin(users, eq(leadOperational.ownerUserId, users.id))''", OF _ ws6]
    by simp
  have 3: "clean_enriched_leads (clean_enriched_leads U) = clean_enriched_leads U" for U
    unfolding clean_enriched_leads_def
    using re_sub_runs_idem [of "''ownerName: lead.ownerName,''", OF _ ws8] by simp
  have "(clean_select ^^ Suc n) T = clean_select T"
    by (induction n) (simp_all add: 1)
  moreover have "(clean_left_joins ^^ Suc n) T = clean_left_joins T"
    by (induction n) (simp_all add: 2)
  moreover have "(clean_enriched_leads ^^ Suc n) T = clean_enriched_leads T"
    by (induction n) (simp_all add: 3)
  ultimately show ?thesis using 1 2 3 by simp
qed



section \<open>Claims about update\_routes.py\<close>

text \<open>
  C1. The insertion scenario, with the patterns of the script: the status block (the
  anchor line, its confirming line and the closing line) followed by the line of the
  terminator. The scan emits the three lines of the block, a blank line and the three
  lines of the zip filter; the terminator line is kept.
\<close>

theorem insertion_scenario:
  "scan [''if (status) {'',
         ''conditions.push(eq(leadOperational.status, status as any));'',
         ''}'',
         ''if (excludeDnc === 'true') {'']
   = Inr [''if (status) {'',
          ''conditions.push(eq(leadOperational.status, status as any));'',
          ''}'',
          ''\<newline>'',
          ''      if (zip) {\<newline>'',
          ''        conditions.push(ilike(canonicalPersons.zip, `${zip}%`));\<newline>'',
          ''      }\<newline>'',
          ''if (excludeDnc === 'true') {'']"
  by code_simp

text \<open>
  C9. Line conservation: when no line contains the header, the anchor, the confirming
  pattern, the terminator, the field or the join pattern, the scan returns the lines
  it was given, unchanged and in order.
\<close>

theorem line_conservation:
  "\<forall>l\<in>set lines. \<not> str_contains HEADER l \<and> \<not> str_contains ANCHOR l
      \<and> \<not> str_contains CONFIRM l \<and> \<not> str_contains TERMINATOR l
      \<and> \<not> str_contains FIELD l \<and> \<not> str_contains JOIN l \<Longrightarrow>
   scan lines = Inr lines"
proof -
  assume a: "\<forall>l\<in>set lines. \<not> str_contains HEADER l \<and> \<not> str_contains ANCHOR l
      \<and> \<not> str_contains CONFIRM l \<and> \<not> str_contains TERMINATOR l
      \<and> \<not> str_contains FIELD l \<and> \<not> str_contains JOIN l"
  then have "\<forall>l\<in>set lines. \<not> str_contains HEADER l \<and> \<not> str_contains ANCHOR l
             \<and> \<not> str_contains FIELD l \<and> \<not> str_contains JOIN l" by blast
  from scan_loop_plain [OF this, of "length lines"] show ?thesis
    by (simp add: scan_def)
qed

theorem line_conservation_witness:
  "scan [''const a = 1;\<newline>'', ''\<newline>'', ''export default a;\<newline>'']
   = Inr [''const a = 1;\<newline>'', ''\<newline>'', ''export default a;\<newline>'']"
proof -
  have "\<forall>l\<in>set [''const a = 1;\<newline>'', ''\<newline>'', ''export default a;\<newline>''].
          \<not> str_contains HEADER l \<and> \<not> str_contains ANCHOR l
          \<and> \<not> str_contains CONFIRM l \<and> \<not> str_contains TERMINATOR l
          \<and> \<not> str_contains FIELD l \<and> \<not> str_contains JOIN l"
    by (simp add: HEADER_def ANCHOR_def CONFIRM_def TERMINATOR_def FIELD_def JOIN_def)
  then show ?thesis by (rule line_conservation)
qed

text \<open>
  C7. The lookahead is not guarded. When the last line contains the anchor, the
  iteration on it raises \<^verbatim>\<open>IndexError\<close> at \<^verbatim>\<open>lines[i+1]\<close>; when the line before the
  last contains the anchor and the last line the confirming pattern, the iteration on
  the line before the last raises \<^verbatim>\<open>IndexError\<close> at \<^verbatim>\<open>lines[i+2]\<close>. In both cases the
  scan ends with the exception and returns no lines.
\<close>

theorem lookahead_index_error:
  "(lines \<noteq> [] \<and> str_contains ANCHOR (last lines) \<longrightarrow>
      scan_body lines (length lines - 1) st = Inl IndexError \<and> scan lines = Inl IndexError)
   \<and> (2 \<le> length lines \<and> str_contains ANCHOR (lines ! (length lines - 2))
        \<and> str_contains CONFIRM (last lines) \<longrightarrow>
      scan_body lines (length lines - 2) st = Inl IndexError \<and> scan lines = Inl IndexError)"
proof (intro conjI impI)
  assume a: "lines \<noteq> [] \<and> str_contains ANCHOR (last lines)"
  then have l: "Suc (length lines - 1) = length lines" by (cases lines) simp_all
  from a have c: "str_contains ANCHOR (lines ! (length lines - 1))"
    using last_conv_nth [of lines] by simp
  from scan_body_anchor_last [OF l c]
  show "scan_body lines (length lines - 1) st = Inl IndexError" .
  from scan_body_anchor_last [OF l c] have "\<forall>st. scan_body lines (length lines - 1) st = Inl IndexError"
    by simp
  moreover from a have "length lines - 1 < length lines" by (cases lines) simp_all
  ultimately show "scan lines = Inl IndexError" by (rule scan_fails_at)
next
  assume a: "2 \<le> length lines \<and> str_contains ANCHOR (lines ! (length lines - 2))
        \<and> str_contains CONFIRM (last lines)"
  then have two: "2 \<le> length lines" by blast
  then have l: "Suc (Suc (length lines - 2)) = length lines" by arith
  from two have ne: "lines \<noteq> []" by auto
  from two have "Suc (length lines - 2) = length lines - 1" by arith
  with a have c: "str_contains CONFIRM (lines ! Suc (length lines - 2))"
    using last_conv_nth [OF ne] by simp
  from a have an: "str_contains ANCHOR (lines ! (length lines - 2))" by simp
  from scan_body_confirm_last [OF l an c]
  show "scan_body lines (length lines - 2) st = Inl IndexError" .
  from scan_body_confirm_last [OF l an c]
  have "\<forall>st. scan_body lines (length lines - 2) st = Inl IndexError" by simp
  moreover from two have "length lines - 2 < length lines" by arith
  ultimately show "scan lines = Inl IndexError" by (rule scan_fails_at)
qed

theorem lookahead_index_error_witness:
  "scan [''x'', ANCHOR] = Inl IndexError \<and> scan [''x'', ANCHOR, CONFIRM] = Inl IndexError"
proof -
  have "[''x'', ANCHOR] \<noteq> [] \<and> str_contains ANCHOR (last [''x'', ANCHOR])"
    by (simp add: ANCHOR_def)
  with lookahead_index_error [of "[''x'', ANCHOR]"]
  have 1: "scan [''x'', ANCHOR] = Inl IndexError" by blast
  have "2 \<le> length [''x'', ANCHOR, CONFIRM]
        \<and> str_contains ANCHOR ([''x'', ANCHOR, CONFIRM] ! (length [''x'', ANCHOR, CONFIRM] - 2))
        \<and> str_contains CONFIRM (last [''x'', ANCHOR, CONFIRM])"
    by (simp add: ANCHOR_def CONFIRM_def)
  with lookahead_index_error [of "[''x'', ANCHOR, CONFIRM]"]
  have 2: "scan [''x'', ANCHOR, CONFIRM] = Inl IndexError" by blast
  from 1 2 show ?thesis by simp
qed

text \<open>
  C3, as the code has it. Let \<^verbatim>\<open>skip\<close> be set after the first \<open>k\<close> lines, let no later
  line contain the terminator, and let every later line that contains the anchor be
  followed by a line without the confirming pattern. Then the scan returns without an
  exception, and its output is what had been emitted when the flag was set: every
  later line is dropped. (The test for the anchor and the next line comes before the
  test of \<^verbatim>\<open>skip\<close> in the loop body, so a later anchor line followed by the confirming
  line is not dropped, and one on the last line raises: see the counterexample.)
\<close>

theorem unterminated_skip_drops_rest:
  assumes "k \<le> length lines"
    and "scan_loop lines [0..<k] init_state = Inr st"
    and "skip st"
    and "\<forall>j. k \<le> j \<and> j < length lines \<longrightarrow>
           \<not> str_contains TERMINATOR (lines ! j)
           \<and> (str_contains ANCHOR (lines ! j) \<longrightarrow>
                j + 1 < length lines \<and> \<not> str_contains CONFIRM (lines ! (j + 1)))"
  shows "scan lines = Inr (new_lines st)"
proof -
  from assms(1) have "[0..<length lines] = [0..<k] @ [k..<length lines]"
    by (metis le_add_diff_inverse upt_add_eq_append zero_le)
  moreover from assms(4)
  have "\<forall>j\<in>set [k..<length lines]. \<not> str_contains TERMINATOR (lines ! j)
          \<and> (str_contains ANCHOR (lines ! j) \<longrightarrow>
               j + 1 < length lines \<and> \<not> str_contains CONFIRM (lines ! (j + 1)))"
    by simp
  with assms(3) have "scan_loop lines [k..<length lines] st = Inr st"
    by (rule scan_loop_dropped)
  ultimately show ?thesis
    using assms(2) by (simp add: scan_def scan_loop_append)
qed

theorem unterminated_skip_drops_rest_witness:
  "scan [ANCHOR, CONFIRM, ''}'', ''x'', ANCHOR, ''y'']
   = Inr ([ANCHOR, CONFIRM, ''}''] @ ZIP_FILTER)"
proof -
  let ?L = "[ANCHOR, CONFIRM, ''}'', ''x'', ANCHOR, ''y'']"
  let ?st = "\<lparr>new_lines = [ANCHOR, CONFIRM, ''}''] @ ZIP_FILTER, skip = True\<rparr>"
  have 1: "1 \<le> length ?L" by simp
  have 2: "scan_loop ?L [0..<1] init_state = Inr ?st" by code_simp
  have 3: "skip ?st" by simp
  have 4: "\<forall>j. 1 \<le> j \<and> j < length ?L \<longrightarrow>
             \<not> str_contains TERMINATOR (?L ! j)
             \<and> (str_contains ANCHOR (?L ! j) \<longrightarrow>
                  j + 1 < length ?L \<and> \<not> str_contains CONFIRM (?L ! (j + 1)))"
  proof (intro allI impI)
    fix j
    assume "1 \<le> j \<and> j < length ?L"
    then have "j = 1 \<or> j = 2 \<or> j = 3 \<or> j = 4 \<or> j = 5" by auto
    then show "\<not> str_contains TERMINATOR (?L ! j)
             \<and> (str_contains ANCHOR (?L ! j) \<longrightarrow>
                  j + 1 < length ?L \<and> \<not> str_contains CONFIRM (?L ! (j + 1)))"
      by (auto simp: TERMINATOR_def ANCHOR_def CONFIRM_def)
  qed
  from unterminated_skip_drops_rest [OF 1 2 3 4] show ?thesis by simp
qed

theorem unterminated_skip_counterexample:
  "scan_loop [ANCHOR, CONFIRM, ''}'', ''x'', ANCHOR, CONFIRM, ''y''] [0..<1] init_state
     = Inr \<lparr>new_lines = [ANCHOR, CONFIRM, ''}''] @ ZIP_FILTER, skip = True\<rparr>
   \<and> \<not> list_ex (str_contains TERMINATOR) [ANCHOR, CONFIRM, ''}'', ''x'', ANCHOR, CONFIRM, ''y'']
   \<and> scan [ANCHOR, CONFIRM, ''}'', ''x'', ANCHOR, CONFIRM, ''y'']
     = Inr ([ANCHOR, CONFIRM, ''}''] @ ZIP_FILTER @ [ANCHOR, CONFIRM, ''y''] @ ZIP_FILTER)
   \<and> scan [ANCHOR, CONFIRM, ''}'', ''x'', ANCHOR] = Inl IndexError"
  by code_simp

text \<open>
  C6. The line \<^verbatim>\<open>lines[i+2]\<close> is appended by the insertion and read again two
  iterations later. When it contains the terminator it clears \<^verbatim>\<open>skip\<close> and is appended
  a second time: three input lines and four synthesized lines give eight output lines.
\<close>

theorem consumed_line_emitted_twice:
  "scan [ANCHOR, CONFIRM, TERMINATOR]
     = Inr ([ANCHOR, CONFIRM, TERMINATOR] @ ZIP_FILTER @ [TERMINATOR])
   \<and> length ([ANCHOR, CONFIRM, TERMINATOR] @ ZIP_FILTER @ [TERMINATOR])
     = length [ANCHOR, CONFIRM, TERMINATOR] + length ZIP_FILTER + 1"
  by code_simp

text \<open>
  C2, as the code has it. The rewrite of the query parameters (rule 1) does not end
  the iteration: the rewritten line takes the place of the line, and it is the line
  that the other rules emit. The tests of the other rules give the same answer on the
  line read and on the rewritten line, so they are stated on the line read. Among
  these rules the first that applies decides alone: the block insertion applies
  whatever \<^verbatim>\<open>skip\<close> and the other patterns are; otherwise, while \<^verbatim>\<open>skip\<close> is set, a line
  without the terminator emits nothing; otherwise the field injection goes before
  the join injection; otherwise the line is emitted alone.
\<close>

theorem rule_priority:
  "(str_contains ANCHOR (lines ! i) \<and> i + 2 < length lines
      \<and> str_contains CONFIRM (lines ! (i + 1)) \<longrightarrow>
    scan_body lines i st =
      Inr \<lparr>new_lines = new_lines st
               @ [update_query_params (lines ! i), lines ! (i + 1), lines ! (i + 2)] @ ZIP_FILTER,
           skip = True\<rparr>)
   \<and> (\<not> str_contains ANCHOR (lines ! i)
        \<or> (i + 1 < length lines \<and> \<not> str_contains CONFIRM (lines ! (i + 1))) \<longrightarrow>
      scan_body lines i st =
        Inr (if skip st \<and> \<not> str_contains TERMINATOR (lines ! i) then st
             else if str_contains FIELD (lines ! i) then
               \<lparr>new_lines = new_lines st @ [update_query_params (lines ! i), OWNER_NAME_FIELD],
                skip = False\<rparr>
             else if str_contains JOIN (lines ! i) then
               \<lparr>new_lines = new_lines st @ [update_query_params (lines ! i), USERS_JOIN],
                skip = False\<rparr>
             else \<lparr>new_lines = new_lines st @ [update_query_params (lines ! i)], skip = False\<rparr>))"
  by (cases st)
     (auto simp: scan_body_def Let_def update_query_params_tests skip_or_emit_def emit_line_def)

theorem rule_priority_witness:
  "scan_body [ANCHOR @ FIELD @ JOIN, CONFIRM, ''}''] 0 \<lparr>new_lines = [], skip = True\<rparr>
     = Inr \<lparr>new_lines = [ANCHOR @ FIELD @ JOIN, CONFIRM, ''}''] @ ZIP_FILTER, skip = True\<rparr>
   \<and> scan_body [HEADER @ FIELD @ JOIN] 0 \<lparr>new_lines = [], skip = False\<rparr>
     = Inr \<lparr>new_lines = [update_query_params (HEADER @ FIELD @ JOIN), OWNER_NAME_FIELD],
            skip = False\<rparr>"
proof -
  let ?L = "[ANCHOR @ FIELD @ JOIN, CONFIRM, ''}'']"
  have "str_contains ANCHOR (?L ! 0) \<and> 0 + 2 < length ?L \<and> str_contains CONFIRM (?L ! (0 + 1))"
    by (simp add: ANCHOR_def CONFIRM_def)
  with rule_priority [of ?L 0 "\<lparr>new_lines = [], skip = True\<rparr>"]
  have 1: "scan_body ?L 0 \<lparr>new_lines = [], skip = True\<rparr>
     = Inr \<lparr>new_lines = [update_query_params (ANCHOR @ FIELD @ JOIN), CONFIRM, ''}''] @ ZIP_FILTER, skip = True\<rparr>"
    by simp
  have u: "update_query_params (ANCHOR @ FIELD @ JOIN) = ANCHOR @ FIELD @ JOIN"
    by code_simp
  let ?M = "[HEADER @ FIELD @ JOIN]"
  have "\<not> str_contains ANCHOR (?M ! 0)" "str_contains FIELD (?M ! 0)"
    by code_simp+
  with rule_priority [of ?M 0 "\<lparr>new_lines = [], skip = False\<rparr>"]
  have 2: "scan_body ?M 0 \<lparr>new_lines = [], skip = False\<rparr>
     = Inr \<lparr>new_lines = [update_query_params (HEADER @ FIELD @ JOIN), OWNER_NAME_FIELD],
            skip = False\<rparr>"
    by simp
  from 1 2 u show ?thesis by simp
qed

text \<open>
  A line with the header and the field pattern gets both the rewrite of rule 1 and
  the synthesized line of rule 4, not the result of rule 1 only.
\<close>

theorem header_not_exclusive_counterexample:
  "str_contains HEADER (HEADER @ '' '' @ FIELD) \<and> str_contains FIELD (HEADER @ '' '' @ FIELD)
   \<and> scan [HEADER @ '' '' @ FIELD]
     = Inr [''const { batchId, minScore, status, state, zip, onlyContactable, excludeDnc, search } = req.query; ownerUserId: leadOperational.ownerUserId,'',
            ''        ownerName: users.username,\<newline>'']
   \<and> scan [HEADER @ '' '' @ FIELD]
     \<noteq> Inr [''const { batchId, minScore, status, state, zip, onlyContactable, excludeDnc, search } = req.query; ownerUserId: leadOperational.ownerUserId,'']"
  by code_simp

section \<open>Claims about the file\<close>

text \<open>
  C10, as the code has it. A failed read ends the run before any transformation and
  leaves the file as it was; so does an exception of the scan, and so does a failure
  to open the file for writing. The write itself is truncate-then-write: when it fails
  after \<open>k\<close> characters, the run fails and the file holds the first \<open>k\<close> characters of
  the new text. Nothing replaces the file atomically.
\<close>

theorem failed_run_file_state:
  "run_fix_routes ReadFails file = (Inl OSError, file)
   \<and> run_update_routes ReadFails file = (Inl OSError, file)
   \<and> run_fix_routes OpenForWriteFails file = (Inl OSError, file)
   \<and> fst (run_update_routes OpenForWriteFails file) \<noteq> Inr ()
   \<and> snd (run_update_routes OpenForWriteFails file) = file
   \<and> (scan (readlines file) = Inl e \<and> fault \<noteq> ReadFails \<longrightarrow>
        run_update_routes fault file = (Inl e, file))
   \<and> run_fix_routes (WriteFails k) file = (Inl OSError, take k (fix_routes file))
   \<and> (scan (readlines file) = Inr out \<longrightarrow>
        run_update_routes (WriteFails k) file = (Inl OSError, take k (concat out)))"
  by (auto simp: run_fix_routes_def run_update_routes_def open_read_def open_write_def
        write_text_def Let_def split: sum.splits)

theorem failed_run_file_state_witness:
  "run_update_routes NoFault ''if (status) {'' = (Inl IndexError, ''if (status) {'')
   \<and> run_update_routes (WriteFails 3) ''const a = 1;'' = (Inl OSError, ''con'')"
proof -
  have 1: "scan (readlines ''if (status) {'') = Inl IndexError \<and> NoFault \<noteq> ReadFails"
    by code_simp
  have 2: "scan (readlines ''const a = 1;'') = Inr [''const a = 1;'']"
    by code_simp
  from failed_run_file_state [of "''if (status) {''" IndexError NoFault] 1
  have "run_update_routes NoFault ''if (status) {'' = (Inl IndexError, ''if (status) {'')"
    by blast
  moreover from failed_run_file_state [of "''const a = 1;''" _ _ 3 "[''const a = 1;'']"] 2
  have "run_update_routes (WriteFails 3) ''const a = 1;''
        = (Inl OSError, take 3 (concat [''const a = 1;'']))"
    by blast
  ultimately show ?thesis by simp
qed

text \<open>
  A write that fails after three characters: the run has failed, and the file is
  neither the original nor the new text.
\<close>

theorem partial_write_counterexample:
  "run_fix_routes (WriteFails 3) ''const a = 1;'' = (Inl OSError, ''con'')
   \<and> run_update_routes (WriteFails 3) ''const a = 1;'' = (Inl OSError, ''con'')
   \<and> run_fix_routes NoFault ''const a = 1;'' = (Inr (), ''const a = 1;'')"
  by code_simp

end
